theory Spec2Isabelle
  imports Complex_Main "HOL-Library.Char_ord"
begin

section \<open>Data model (main.go, lines 19-33)\<close>

text \<open>
  A Go \<open>string\<close> is a sequence of bytes, modelled as \<open>string\<close> (a list of 8-bit
  characters). Go's \<open>int\<close> is modelled as \<open>int\<close>: the program performs no
  arithmetic on listener counts, it only stores, converts and prints them.
\<close>

record Stream =
  Listeners :: int
  ServerName :: string
  ListenURL :: string

type_synonym Source = "Stream list"

record IcecastStats =
  Source :: Source

record StatusRoot =
  Icestats :: IcecastStats

text \<open>A Go \<open>error\<close> value, identified by its message.\<close>

datatype error = Err string

text \<open>The part of an \<open>http.Response\<close> the program can see.\<close>

record Response =
  StatusCode :: int
  Body :: string

section \<open>Library functions used by the labels\<close>

text \<open>
  \<open>strings.LastIndex(s, substr)\<close>: the index of the last instance of \<open>substr\<close> in
  \<open>s\<close>, or \<open>-1\<close> when there is none.
\<close>

definition strings_LastIndex :: "string \<Rightarrow> string \<Rightarrow> int" where
  "strings_LastIndex s substr =
     (case filter (\<lambda>i. take (length substr) (drop i s) = substr)
             (rev [0..<Suc (length s - length substr)]) of
        [] \<Rightarrow> - 1
      | i # _ \<Rightarrow> int i)"

text \<open>
  \<open>strings.ReplaceAll(s, old, new)\<close> for a non-empty \<open>old\<close>: the non-overlapping
  instances of \<open>old\<close> are replaced from left to right. The program calls it with the
  one-byte strings \<open>"."\<close> and \<open>" "\<close> only; for an empty \<open>old\<close> (where Go inserts
  \<open>new\<close> around every code point) this model is not meant, and returns \<open>s\<close>.
\<close>

fun strings_ReplaceAll :: "string \<Rightarrow> string \<Rightarrow> string \<Rightarrow> string" where
  "strings_ReplaceAll [] old new = []"
| "strings_ReplaceAll (c # cs) old new =
     (if old \<noteq> [] \<and> take (length old) (c # cs) = old
      then new @ strings_ReplaceAll (drop (length old) (c # cs)) old new
      else c # strings_ReplaceAll cs old new)"

text \<open>\<open>strings.Join(elems, sep)\<close>.\<close>

fun strings_Join :: "string list \<Rightarrow> string \<Rightarrow> string" where
  "strings_Join [] sep = []"
| "strings_Join [x] sep = x"
| "strings_Join (x # y # ys) sep = x @ sep @ strings_Join (y # ys) sep"

text \<open>
  The regular expression \<open>[a-zA-Z_:][a-zA-Z0-9_:]*\<close> of \<open>makeLegacyLabel\<close>: one
  character of the first class, then as many characters of the second class as there are
  (the star is greedy). Both classes hold ASCII characters only, and in UTF-8 every byte of
  a code point beyond ASCII (and every byte of an invalid sequence) is 128 or more, so
  matching bytes and matching code points select the same bytes.
\<close>

datatype class_item = Range char char | Single char

fun in_item :: "char \<Rightarrow> class_item \<Rightarrow> bool" where
  "in_item c (Range lo hi) = (lo \<le> c \<and> c \<le> hi)"
| "in_item c (Single x) = (c = x)"

definition in_class :: "class_item list \<Rightarrow> char \<Rightarrow> bool" where
  "in_class cls c = list_ex (in_item c) cls"

definition re_first :: "class_item list" where
  "re_first = [Range CHR ''a'' CHR ''z'', Range CHR ''A'' CHR ''Z'',
               Single CHR ''_'', Single CHR '':'']"

definition re_rest :: "class_item list" where
  "re_rest = [Range CHR ''a'' CHR ''z'', Range CHR ''A'' CHR ''Z'',
              Range CHR ''0'' CHR ''9'', Single CHR ''_'', Single CHR '':'']"

text \<open>The match of the expression that starts at the first byte of \<open>s\<close>, if there is one.\<close>

fun match_here :: "string \<Rightarrow> string option" where
  "match_here [] = None"
| "match_here (c # cs) =
     (if in_class re_first c then Some (c # takeWhile (in_class re_rest) cs) else None)"

text \<open>
  \<open>re.FindAllString(s, -1)\<close>: all successive non-overlapping matches, leftmost first;
  the search goes on right after a match, and one byte further where nothing matches.
  A match of this expression is never empty.
\<close>

function FindAllString :: "string \<Rightarrow> string list" where
  "FindAllString s =
     (if s = [] then []
      else (case match_here s of
              Some m \<Rightarrow> m # FindAllString (drop (length m) s)
            | None \<Rightarrow> FindAllString (tl s)))"
  by pat_completeness auto
termination
proof (relation "measure length")
  show "wf (measure length)" by simp
next
  fix s :: string and m
  assume "s \<noteq> []" and "match_here s = Some m"
  then have "m \<noteq> []" by (cases s) (auto split: if_splits)
  with \<open>s \<noteq> []\<close> show "(drop (length m) s, s) \<in> measure length" by simp
next
  fix s :: string
  assume "s \<noteq> []" and "match_here s = None"
  then show "(tl s, s) \<in> measure length" by simp
qed

declare FindAllString.simps [simp del]

text \<open>
  \<open>fmt.Sprintf("%d", n)\<close> and the way \<open>log.Println\<close> prints an \<open>int\<close>: decimal
  digits, with a leading minus sign for a negative number.
\<close>

fun decimal :: "nat \<Rightarrow> string" where
  "decimal n =
     (if n < 10 then [char_of (48 + n)]
      else decimal (n div 10) @ [char_of (48 + n mod 10)])"

declare decimal.simps [simp del]

definition fmt_d :: "int \<Rightarrow> string" where
  "fmt_d n = (if n < 0 then CHR ''-'' # decimal (nat (- n)) else decimal (nat n))"

section \<open>Labels (main.go, lines 35-50)\<close>

text \<open>
  \<open>name[i:][1:]\<close> is \<open>drop 1 (drop i name)\<close>: both slices are in range, since \<open>i\<close>
  is the index of a byte of \<open>name\<close> (lemma \<open>strings_LastIndex_slash_range\<close>).
\<close>

definition urlToLabel :: "string \<Rightarrow> string" where
  "urlToLabel name =
     (let i = strings_LastIndex name ''/''
      in if i \<ge> 0 then drop 1 (drop (nat i) name) else name)"

definition makeLegacyLabel :: "string \<Rightarrow> string" where
  "makeLegacyLabel name =
     (let name1 = strings_ReplaceAll name ''.'' ''_'';
          name2 = strings_ReplaceAll name1 '' '' ''_'';
          matches = FindAllString name2
      in strings_Join matches [])"

text \<open>
  The reference definition of the legacy transform, written from the specification:
  replace every \<open>.\<close> and every space with \<open>_\<close>, then concatenate, in order, all
  maximal substrings that are identifier-safe (an initial character from letters,
  \<open>_\<close>, \<open>:\<close>, followed by any number of letters, digits, \<open>_\<close>, \<open>:\<close>).
  A substring is given by its position: the bytes from index \<open>i\<close> up to, not
  including, index \<open>j\<close>.
\<close>

definition spec_letter :: "char \<Rightarrow> bool" where
  "spec_letter c = ((CHR ''a'' \<le> c \<and> c \<le> CHR ''z'') \<or> (CHR ''A'' \<le> c \<and> c \<le> CHR ''Z''))"

definition spec_digit :: "char \<Rightarrow> bool" where
  "spec_digit c = (CHR ''0'' \<le> c \<and> c \<le> CHR ''9'')"

definition spec_initial :: "char \<Rightarrow> bool" where
  "spec_initial c = (spec_letter c \<or> c = CHR ''_'' \<or> c = CHR '':'')"

definition spec_following :: "char \<Rightarrow> bool" where
  "spec_following c = (spec_letter c \<or> spec_digit c \<or> c = CHR ''_'' \<or> c = CHR '':'')"

definition spec_substitute :: "char \<Rightarrow> char" where
  "spec_substitute c = (if c = CHR ''.'' \<or> c = CHR '' '' then CHR ''_'' else c)"

definition identifier_safe :: "string \<Rightarrow> bool" where
  "identifier_safe w = (w \<noteq> [] \<and> spec_initial (hd w) \<and> list_all spec_following (tl w))"

definition substring :: "string \<Rightarrow> nat \<times> nat \<Rightarrow> string" where
  "substring s p = take (snd p - fst p) (drop (fst p) s)"

definition safe_at :: "string \<Rightarrow> nat \<times> nat \<Rightarrow> bool" where
  "safe_at s p = (fst p < snd p \<and> snd p \<le> length s \<and> identifier_safe (substring s p))"

text \<open>Maximal: no other identifier-safe substring of \<open>s\<close> contains this one.\<close>

definition maximal_safe :: "string \<Rightarrow> nat \<times> nat \<Rightarrow> bool" where
  "maximal_safe s p =
     (safe_at s p \<and>
      list_all (\<lambda>i. list_all (\<lambda>j. (i, j) = p \<or> \<not> safe_at s (i, j)) [snd p..<Suc (length s)])
        [0..<Suc (fst p)])"

text \<open>All positions \<open>(i, j)\<close> with \<open>i < j \<le> n\<close>, ordered by where they start.\<close>

definition positions :: "nat \<Rightarrow> (nat \<times> nat) list" where
  "positions n = concat (map (\<lambda>i. map (Pair i) [Suc i..<Suc n]) [0..<n])"

definition maximal_substrings :: "string \<Rightarrow> string list" where
  "maximal_substrings s = map (substring s) (filter (maximal_safe s) (positions (length s)))"

definition legacy_reference :: "string \<Rightarrow> string" where
  "legacy_reference name = concat (maximal_substrings (map spec_substitute name))"

section \<open>Decoding the status document (main.go, lines 52-65)\<close>

text \<open>
  \<open>json.Unmarshal\<close> belongs to the Go library, not to this program, so the decoder takes
  its two uses as parameters: \<open>unmarshal_slice data\<close> is the outcome of
  \<open>json.Unmarshal(data, &multiStream)\<close> and \<open>unmarshal_struct data\<close> the outcome of
  \<open>json.Unmarshal(data, &singleStream)\<close>, both into fresh variables. The receiver
  \<open>*sourcePtr\<close> is passed in and returned; the second component is the returned error
  (\<open>None\<close> for \<open>nil\<close>). The type \<open>'d\<close> is what stands for the bytes \<open>data\<close>.
\<close>

definition UnmarshalJSON ::
  "('d \<Rightarrow> error + Stream list) \<Rightarrow> ('d \<Rightarrow> error + Stream) \<Rightarrow>
   Source \<Rightarrow> 'd \<Rightarrow> Source \<times> error option" where
  "UnmarshalJSON unmarshal_slice unmarshal_struct source data =
     (case unmarshal_slice data of
        Inr multiStream \<Rightarrow> (multiStream, None)
      | Inl _ \<Rightarrow>
          (case unmarshal_struct data of
             Inr singleStream \<Rightarrow> ([singleStream], None)
           | Inl _ \<Rightarrow> (source, Some (Err ''error parsing icestats source''))))"

text \<open>
  What \<open>json.Unmarshal\<close> does with the shape of a document. The bytes are given by
  what they denote: no JSON text at all, \<open>null\<close>, a string, number or boolean, an array
  of values, or an object. How the members of an object fill the fields of a \<open>Stream\<close>
  (which keys match, which values fit) is left to the parameter \<open>object\<close>: the outcome
  of unmarshalling that object into a zero \<open>Stream\<close>. The rules of the library that
  the model fixes:
  \<^item> \<open>null\<close> sets a slice to \<open>nil\<close> and has no effect on a struct, without error;
  \<^item> an array fills a slice element by element, and is an error for a struct;
  \<^item> an object is an error for a slice;
  \<^item> a string, number or boolean is an error for both;
  \<^item> bytes that are no JSON text are a syntax error.
  The messages of these errors are shortened; the decoder does not look at them.
\<close>

datatype 'o document =
    Malformed
  | Null
  | Scalar
  | Array "'o document list"
  | Object 'o

definition zero_Stream :: Stream where
  "zero_Stream = \<lparr>Listeners = 0, ServerName = [], ListenURL = []\<rparr>"

text \<open>A value unmarshalled into a \<open>Stream\<close> that holds the zero value.\<close>

fun json_Unmarshal_Stream :: "('o \<Rightarrow> error + Stream) \<Rightarrow> 'o document \<Rightarrow> error + Stream" where
  "json_Unmarshal_Stream object Malformed = Inl (Err ''json: syntax error'')"
| "json_Unmarshal_Stream object Null = Inr zero_Stream"
| "json_Unmarshal_Stream object Scalar =
     Inl (Err ''json: cannot unmarshal into Go value of type main.Stream'')"
| "json_Unmarshal_Stream object (Array vs) =
     Inl (Err ''json: cannot unmarshal array into Go value of type main.Stream'')"
| "json_Unmarshal_Stream object (Object m) = object m"

text \<open>The elements of an array, each into a new element of the slice.\<close>

fun unmarshal_elements ::
  "('o \<Rightarrow> error + Stream) \<Rightarrow> 'o document list \<Rightarrow> error + Stream list" where
  "unmarshal_elements object [] = Inr []"
| "unmarshal_elements object (v # vs) =
     (case json_Unmarshal_Stream object v of
        Inl e \<Rightarrow> Inl e
      | Inr s \<Rightarrow>
          (case unmarshal_elements object vs of
             Inl e \<Rightarrow> Inl e
           | Inr ss \<Rightarrow> Inr (s # ss)))"

fun json_Unmarshal_slice ::
  "('o \<Rightarrow> error + Stream) \<Rightarrow> 'o document \<Rightarrow> error + Stream list" where
  "json_Unmarshal_slice object Malformed = Inl (Err ''json: syntax error'')"
| "json_Unmarshal_slice object Null = Inr []"
| "json_Unmarshal_slice object Scalar =
     Inl (Err ''json: cannot unmarshal into Go value of type []main.Stream'')"
| "json_Unmarshal_slice object (Array vs) = unmarshal_elements object vs"
| "json_Unmarshal_slice object (Object m) =
     Inl (Err ''json: cannot unmarshal object into Go value of type []main.Stream'')"

text \<open>The decoder on top of the library.\<close>

definition Source_UnmarshalJSON ::
  "('o \<Rightarrow> error + Stream) \<Rightarrow> Source \<Rightarrow> 'o document \<Rightarrow> Source \<times> error option" where
  "Source_UnmarshalJSON object source data =
     UnmarshalJSON (json_Unmarshal_slice object) (json_Unmarshal_Stream object) source data"

text \<open>
  The two shapes of the specification: a single stream object (an object that unmarshals
  into a \<open>Stream\<close>) and an array of stream objects.
\<close>

fun stream_object :: "('o \<Rightarrow> error + Stream) \<Rightarrow> 'o document \<Rightarrow> bool" where
  "stream_object object (Object m) = (case object m of Inr s \<Rightarrow> True | Inl e \<Rightarrow> False)"
| "stream_object object d = False"

fun array_of_stream_objects :: "('o \<Rightarrow> error + Stream) \<Rightarrow> 'o document \<Rightarrow> bool" where
  "array_of_stream_objects object (Array vs) = list_all (stream_object object) vs"
| "array_of_stream_objects object d = False"

text \<open>The stream that an element of an accepted array stands for.\<close>

fun element_stream :: "('o \<Rightarrow> error + Stream) \<Rightarrow> 'o document \<Rightarrow> Stream" where
  "element_stream object (Object m) = (case object m of Inr s \<Rightarrow> s | Inl e \<Rightarrow> zero_Stream)"
| "element_stream object d = zero_Stream"

section \<open>The poll loop and its effects (main.go, lines 67-126)\<close>

text \<open>
  What the program does to the outside is recorded as a trace of events: its calls of
  \<open>http.Get\<close>, the response bodies it closes, the lines it logs, the goroutines it
  starts with \<open>go publishVClock(clock, n)\<close>, and its calls of \<open>time.Sleep\<close> (in
  nanoseconds, the unit of \<open>time.Duration\<close>).
\<close>

datatype event =
    HttpGet string
  | BodyClose
  | LogPrintln string
  | Go_publishVClock string int
  | Sleep int

definition time_Second :: int where
  "time_Second = 1000000000"

text \<open>
  The outside world during one call. \<open>network url\<close> is what comes of a request that
  the HTTP client sends: an error, or a response with any status code (\<open>http.Get\<close>
  reports no error for a response that is not 2xx). \<open>refuses url\<close> is the error with
  which the client gives up before it connects to anything, for a reason that the model
  does not fix (the URL does not parse, its scheme is not supported); \<open>None\<close> when
  there is none. \<open>json_Decode body\<close> is the outcome of
  \<open>json.NewDecoder(resp.Body).Decode(&stats)\<close> when \<open>stats\<close> points to a new, zero
  \<open>StatusRoot\<close>: the value \<open>stats\<close> has afterwards (\<open>None\<close> is the \<open>nil\<close>
  pointer, which the decoder stores for the document \<open>null\<close>) and the error returned.
\<close>

record world =
  network :: "string \<Rightarrow> error + Response"
  refuses :: "string \<Rightarrow> error option"
  json_Decode :: "string \<Rightarrow> StatusRoot option \<times> error option"

text \<open>
  The one rule of the HTTP client that the model fixes: a URL \<open>http://\<close> followed by
  nothing, or by text that starts with \<open>/\<close>, \<open>?\<close> or \<open>#\<close>, has an empty authority
  and so no host, and the client returns \<open>http: no Host in request URL\<close> for it
  without connecting to anything.
\<close>

definition no_Host :: "string \<Rightarrow> bool" where
  "no_Host url =
     (take 7 url = ''http://'' \<and>
      (drop 7 url = [] \<or> hd (drop 7 url) = CHR ''/'' \<or> hd (drop 7 url) = CHR ''?'' \<or>
       hd (drop 7 url) = CHR ''#''))"

text \<open>\<open>http.Get(url)\<close>, as the program sees it.\<close>

definition http_Get :: "world \<Rightarrow> string \<Rightarrow> error + Response" where
  "http_Get w url =
     (case refuses w url of
        Some e \<Rightarrow> Inl e
      | None \<Rightarrow>
          (if no_Host url then Inl (Err ''http: no Host in request URL'')
           else network w url))"


text \<open>
  \<open>LoadIcecastStatus\<close> returns \<open>(stats, err)\<close>; the third component is its trace.
  The error of \<open>Decode\<close> is not assigned to anything.
\<close>

definition LoadIcecastStatus ::
  "world \<Rightarrow> string \<Rightarrow> StatusRoot option \<times> error option \<times> event list" where
  "LoadIcecastStatus w url =
     (case http_Get w url of
        Inl err \<Rightarrow> (None, Some err, [HttpGet url])
      | Inr resp \<Rightarrow>
          (let (stats, _) = json_Decode w (Body resp)
           in (stats, None, [HttpGet url, BodyClose])))"




text \<open>
  The state the loop works on: the gauge vector \<open>listeners\<close>, a map from the two label
  values to the gauge's value, and the trace so far. \<open>WithLabelValues(a, b).Set(v)\<close>
  creates the gauge when it is absent and sets it. The gauge holds a \<open>float64\<close>; the
  conversion \<open>float64(s.Listeners)\<close> is the parameter \<open>f64\<close>, so that nothing is
  assumed about rounding.
\<close>

record 'f pstate =
  gauges :: "string \<times> string \<rightharpoonup> 'f"
  trace :: "event list"

definition emit :: "event list \<Rightarrow> 'f pstate \<Rightarrow> 'f pstate" where
  "emit es st = st\<lparr>trace := trace st @ es\<rparr>"

text \<open>The label values of a stream (lines 110-115).\<close>

definition labels :: "bool \<Rightarrow> Stream \<Rightarrow> string \<times> string" where
  "labels legacyLabel s =
     (let labelServer = ServerName s;
          labelURL = urlToLabel (ListenURL s)
      in if legacyLabel then (makeLegacyLabel labelServer, makeLegacyLabel labelURL)
         else (labelServer, labelURL))"

text \<open>What is done for a stream that passes the filter (lines 110-117).\<close>

definition update_stream ::
  "(int \<Rightarrow> 'f) \<Rightarrow> string \<Rightarrow> bool \<Rightarrow> Stream \<Rightarrow> 'f pstate \<Rightarrow> 'f pstate" where
  "update_stream f64 clock legacyLabel s st =
     emit [Go_publishVClock clock (Listeners s)]
       (st\<lparr>gauges := (gauges st)(labels legacyLabel s \<mapsto> f64 (Listeners s))\<rparr>)"

text \<open>The body of the \<open>range\<close> loop (lines 109-119).\<close>

definition range_body ::
  "(int \<Rightarrow> 'f) \<Rightarrow> string \<Rightarrow> string \<Rightarrow> bool \<Rightarrow> Stream \<Rightarrow> 'f pstate \<Rightarrow> 'f pstate" where
  "range_body f64 serverName clock legacyLabel s st =
     (if ServerName s = serverName \<or> serverName = []
      then update_stream f64 clock legacyLabel s st
      else st)"

text \<open>
  One iteration of the \<open>for\<close> loop of \<open>updateListeners\<close> (lines 103-123). Reading
  \<open>resp.Icestats\<close> through a \<open>nil\<close> pointer panics, which ends the process: \<open>Inl\<close>.
\<close>

datatype panic = NilPointerDereference

definition pollCycle ::
  "(int \<Rightarrow> 'f) \<Rightarrow> string \<Rightarrow> string \<Rightarrow> int \<Rightarrow> string \<Rightarrow> bool \<Rightarrow>
   world \<Rightarrow> 'f pstate \<Rightarrow> panic + 'f pstate" where
  "pollCycle f64 url serverName wait clock legacyLabel w st =
     (let (resp, err, es) = LoadIcecastStatus w url;
          st1 = emit es st
      in case err of
           Some _ \<Rightarrow>
             Inr (emit [Sleep (15 * time_Second)]
                   (emit [LogPrintln (''Error polling Icecast endpoint, trying again in ''
                                       @ fmt_d wait)] st1))
         | None \<Rightarrow>
             (case resp of
                None \<Rightarrow> Inl NilPointerDereference
              | Some r \<Rightarrow>
                  Inr (emit [Sleep (15 * time_Second)]
                        (fold (range_body f64 serverName clock legacyLabel)
                           (Source (Icestats r)) st1))))"

text \<open>
  The loop never ends by itself. Its first iterations, one world for each: the state after
  them, or the panic that ended the process.
\<close>

fun updateListeners ::
  "(int \<Rightarrow> 'f) \<Rightarrow> string \<Rightarrow> string \<Rightarrow> int \<Rightarrow> string \<Rightarrow> bool \<Rightarrow>
   world list \<Rightarrow> 'f pstate \<Rightarrow> panic + 'f pstate" where
  "updateListeners f64 url serverName wait clock legacyLabel [] st = Inr st"
| "updateListeners f64 url serverName wait clock legacyLabel (w # ws) st =
     (case pollCycle f64 url serverName wait clock legacyLabel w st of
        Inl p \<Rightarrow> Inl p
      | Inr st' \<Rightarrow> updateListeners f64 url serverName wait clock legacyLabel ws st')"

text \<open>
  The streams of a snapshot that a cycle writes to the gauge with label values \<open>k\<close>:
  those that pass the filter and whose labels are \<open>k\<close>, in the order of the snapshot.
\<close>

definition writers :: "string \<Rightarrow> bool \<Rightarrow> string \<times> string \<Rightarrow> Source \<Rightarrow> Stream list" where
  "writers serverName legacyLabel k src =
     filter (\<lambda>s. (ServerName s = serverName \<or> serverName = []) \<and> labels legacyLabel s = k) src"

text \<open>The snapshot a cycle works on: empty when the fetch returns an error or no document.\<close>

definition snapshot :: "world \<Rightarrow> string \<Rightarrow> Source" where
  "snapshot w url =
     (case LoadIcecastStatus w url of
        (Some r, None, _) \<Rightarrow> Source (Icestats r)
      | _ \<Rightarrow> [])"

section \<open>Example inputs\<close>

definition zero_StatusRoot :: StatusRoot where
  "zero_StatusRoot = \<lparr>Icestats = \<lparr>Source = []\<rparr>\<rparr>"

definition stream_a :: Stream where
  "stream_a = \<lparr>Listeners = 3, ServerName = ''Radio One'', ListenURL = ''http://host/one.mp3''\<rparr>"

definition stream_b :: Stream where
  "stream_b = \<lparr>Listeners = 7, ServerName = ''Radio Two'', ListenURL = ''http://host/two.ogg''\<rparr>"

definition stream_c :: Stream where
  "stream_c = \<lparr>Listeners = 12, ServerName = ''Radio One'', ListenURL = ''http://other/one.mp3''\<rparr>"

text \<open>No server can be reached: every request that is sent fails.\<close>

definition world_unreachable :: world where
  "world_unreachable =
     \<lparr>network = (\<lambda>u. Inl (Err ''connection refused'')),
      refuses = (\<lambda>u. None),
      json_Decode = (\<lambda>b. (Some zero_StatusRoot, None))\<rparr>"

text \<open>
  The server answers 404 with a page that is no JSON: \<open>http.Get\<close> returns the response
  and no error, \<open>Decode\<close> returns an error and leaves \<open>stats\<close> as it was.
\<close>

definition world_not_found :: world where
  "world_not_found =
     \<lparr>network = (\<lambda>u. Inr \<lparr>StatusCode = 404, Body = ''<html>Not Found</html>''\<rparr>),
      refuses = (\<lambda>u. None),
      json_Decode = (\<lambda>b. (Some zero_StatusRoot, Some (Err ''invalid character'')))\<rparr>"

text \<open>The server answers with a status document of three streams.\<close>

definition world_three_streams :: world where
  "world_three_streams =
     \<lparr>network = (\<lambda>u. Inr \<lparr>StatusCode = 200, Body = ''three streams''\<rparr>),
      refuses = (\<lambda>u. None),
      json_Decode = (\<lambda>b. (Some \<lparr>Icestats = \<lparr>Source = [stream_a, stream_b, stream_c]\<rparr>\<rparr>, None))\<rparr>"

text \<open>The server answers with a status document of one stream.\<close>

definition world_one_stream :: world where
  "world_one_stream =
     \<lparr>network = (\<lambda>u. Inr \<lparr>StatusCode = 200, Body = ''one stream''\<rparr>),
      refuses = (\<lambda>u. None),
      json_Decode = (\<lambda>b. (Some \<lparr>Icestats = \<lparr>Source = [stream_b]\<rparr>\<rparr>, None))\<rparr>"

definition empty_state :: "real pstate" where
  "empty_state = \<lparr>gauges = Map.empty, trace = []\<rparr>"

text \<open>
  A stand-in for unmarshalling an object into a \<open>Stream\<close>: the objects are named by
  their text, and three of them are streams.
\<close>

definition example_object :: "string \<Rightarrow> error + Stream" where
  "example_object m =
     (if m = ''{listeners: 3, server_name: Radio One, listenurl: http://host/one.mp3}''
      then Inr stream_a
      else if m = ''{listeners: 7, server_name: Radio Two, listenurl: http://host/two.ogg}''
      then Inr stream_b
      else if m = ''{listeners: 12, server_name: Radio One, listenurl: http://other/one.mp3}''
      then Inr stream_c
      else Inl (Err ''json: cannot unmarshal into Go struct field of type main.Stream''))"

section \<open>The label of a URL\<close>

lemma take1_drop_eq: "(take (length [c]) (drop i s) = [c]) = (i < length s \<and> s ! i = c)"
proof (cases "i < length s")
  case True
  then have "drop i s = s ! i # drop (Suc i) s" by (simp add: Cons_nth_drop_Suc)
  then show ?thesis using True by simp
next
  case False
  then show ?thesis by simp
qed

lemma strings_LastIndex_absent:
  assumes "c \<notin> set s"
  shows "strings_LastIndex s [c] = - 1"
proof -
  have "filter (\<lambda>i. take (length [c]) (drop i s) = [c]) (rev [0..<Suc (length s - length [c])]) = []"
    unfolding take1_drop_eq using assms by (auto simp: filter_empty_conv)
  then show ?thesis unfolding strings_LastIndex_def by simp
qed

lemma strings_LastIndex_present:
  assumes "c \<in> set s"
  shows "\<exists>pre post. s = pre @ c # post \<and> c \<notin> set post \<and> strings_LastIndex s [c] = int (length pre)"
proof -
  define cand where "cand = [0..<Suc (length s - length [c])]"
  let ?P = "\<lambda>i. i < length s \<and> s ! i = c"
  have cand_set: "\<And>u. u < length s \<Longrightarrow> u \<in> set cand" unfolding cand_def by auto
  have cand_sorted: "sorted cand" unfolding cand_def by (rule sorted_upt)
  from assms obtain k where k: "k < length s" "s ! k = c" by (auto simp: in_set_conv_nth)
  then have "k \<in> set (rev cand)" using cand_set by simp
  with k have "filter ?P (rev cand) \<noteq> []" unfolding filter_empty_conv by blast
  then obtain i rest where f: "filter ?P (rev cand) = i # rest"
    by (cases "filter ?P (rev cand)") auto
  from filter_eq_ConsD [OF f] obtain us vs where
    uv: "rev cand = us @ i # vs" "\<forall>u\<in>set us. \<not> ?P u" "?P i" by blast
  from uv(1) have e: "cand = rev vs @ i # rev us" by (simp add: rev_swap)
  have later: "u \<in> set us" if u: "i < u" "u < length s" for u
  proof -
    from u have "u \<in> set cand" using cand_set by simp
    then have "u \<in> set vs \<or> u = i \<or> u \<in> set us" unfolding e by auto
    moreover have "\<forall>x\<in>set vs. x \<le> i"
      using cand_sorted unfolding e by (auto simp: sorted_append)
    ultimately show ?thesis using u by auto
  qed
  have s: "s = take i s @ c # drop (Suc i) s" using uv(3) by (metis id_take_nth_drop)
  have "c \<notin> set (drop (Suc i) s)"
  proof
    assume "c \<in> set (drop (Suc i) s)"
    then obtain j where j: "j < length (drop (Suc i) s)" "drop (Suc i) s ! j = c"
      by (auto simp: in_set_conv_nth)
    then have "?P (Suc i + j)" by auto
    moreover have "Suc i + j \<in> set us" using later j by auto
    ultimately show False using uv(2) by blast
  qed
  moreover have "strings_LastIndex s [c] = int i"
    unfolding strings_LastIndex_def take1_drop_eq cand_def [symmetric] f by simp
  moreover have "length (take i s) = i" using uv(3) by simp
  ultimately show ?thesis using s by metis
qed

lemma strings_LastIndex_slash_range:
  "- 1 \<le> strings_LastIndex name ''/'' \<and> strings_LastIndex name ''/'' < int (length name)"
proof (cases "CHR ''/'' \<in> set name")
  case True
  from strings_LastIndex_present [OF True] show ?thesis by auto
next
  case False
  from strings_LastIndex_absent [OF False] show ?thesis by simp
qed

text \<open>
  C6. For every URL string, \<open>urlToLabel\<close> returns the text after the last \<open>/\<close>
  when the string contains one (the string is some prefix, a \<open>/\<close>, and the result, and
  the result holds no \<open>/\<close>), and returns the whole string unchanged when it holds no
  \<open>/\<close>; \<open>http://host/stream.mp3\<close> maps to \<open>stream.mp3\<close>.
\<close>

theorem urlToLabel_last_segment:
  "(CHR ''/'' \<in> set name \<longrightarrow>
      (\<exists>pre. name = pre @ ''/'' @ urlToLabel name) \<and> CHR ''/'' \<notin> set (urlToLabel name)) \<and>
   (CHR ''/'' \<notin> set name \<longrightarrow> urlToLabel name = name) \<and>
   urlToLabel ''http://host/stream.mp3'' = ''stream.mp3''"
proof (intro conjI impI)
  assume "CHR ''/'' \<in> set name"
  from strings_LastIndex_present [OF this] obtain pre post where
    p: "name = pre @ CHR ''/'' # post" "CHR ''/'' \<notin> set post"
       "strings_LastIndex name ''/'' = int (length pre)" by blast
  have "urlToLabel name = drop (Suc (length pre)) name"
    unfolding urlToLabel_def p(3) by simp
  also have "\<dots> = post" by (subst p(1)) simp
  finally have u: "urlToLabel name = post" .
  show "\<exists>pre. name = pre @ ''/'' @ urlToLabel name" unfolding u using p(1) by auto
  show "CHR ''/'' \<notin> set (urlToLabel name)" unfolding u by (rule p(2))
next
  assume "CHR ''/'' \<notin> set name"
  from strings_LastIndex_absent [OF this] show "urlToLabel name = name"
    unfolding urlToLabel_def by simp
next
  show "urlToLabel ''http://host/stream.mp3'' = ''stream.mp3''" by code_simp
qed

theorem urlToLabel_last_segment_witness:
  "CHR ''/'' \<in> set ''a/b/c.mp3'' \<and>
   (\<exists>pre. ''a/b/c.mp3'' = pre @ ''/'' @ urlToLabel ''a/b/c.mp3'') \<and>
   CHR ''/'' \<notin> set (urlToLabel ''a/b/c.mp3'') \<and>
   CHR ''/'' \<notin> set ''abc'' \<and> urlToLabel ''abc'' = ''abc''"
  using urlToLabel_last_segment [of "''a/b/c.mp3''"] urlToLabel_last_segment [of "''abc''"]
  by simp

section \<open>The poll cycle\<close>

lemma gauges_emit: "gauges (emit es st) = gauges st"
  by (simp add: emit_def)

lemma range_loop_filter:
  "fold (range_body f64 serverName clock legacyLabel) src st =
   fold (update_stream f64 clock legacyLabel)
     (filter (\<lambda>s. ServerName s = serverName \<or> serverName = []) src) st"
  by (induction src arbitrary: st) (simp_all add: range_body_def)

lemma pollCycle_loaded:
  assumes "LoadIcecastStatus w url = (Some r, None, es)"
  shows "pollCycle f64 url serverName wait clock legacyLabel w st =
         Inr (emit [Sleep (15 * time_Second)]
               (fold (range_body f64 serverName clock legacyLabel) (Source (Icestats r))
                  (emit es st)))"
  using assms by (simp add: pollCycle_def)

lemma pollCycle_error:
  assumes "LoadIcecastStatus w url = (resp, Some e, es)"
  shows "pollCycle f64 url serverName wait clock legacyLabel w st =
         Inr (emit [Sleep (15 * time_Second)]
               (emit [LogPrintln (''Error polling Icecast endpoint, trying again in '' @ fmt_d wait)]
                  (emit es st)))"
  using assms by (simp add: pollCycle_def)

lemma pollCycle_nil:
  assumes "LoadIcecastStatus w url = (None, None, es)"
  shows "pollCycle f64 url serverName wait clock legacyLabel w st = Inl NilPointerDereference"
  using assms by (simp add: pollCycle_def)

text \<open>
  C7. For every snapshot and every filter string: in a cycle whose fetch returned a
  snapshot, exactly the streams whose \<open>ServerName\<close> equals the filter (as strings, byte
  for byte) are passed on to the labels, the gauge and the legacy push, in the order of the
  snapshot, and the others are skipped; with the empty filter every stream is passed on.
\<close>

theorem filter_exact_server_name:
  assumes "LoadIcecastStatus w url = (Some r, None, es)"
  shows "pollCycle f64 url serverName wait clock legacyLabel w st =
         Inr (emit [Sleep (15 * time_Second)]
               (fold (update_stream f64 clock legacyLabel)
                  (if serverName = [] then Source (Icestats r)
                   else filter (\<lambda>s. ServerName s = serverName) (Source (Icestats r)))
                  (emit es st)))"
proof (cases "serverName = []")
  case True
  then show ?thesis
    unfolding pollCycle_loaded [OF assms] range_loop_filter by simp
next
  case False
  then show ?thesis
    unfolding pollCycle_loaded [OF assms] range_loop_filter by simp
qed

theorem filter_exact_server_name_witness:
  "LoadIcecastStatus world_three_streams ''http://ice/status-json.xsl'' =
     (Some \<lparr>Icestats = \<lparr>Source = [stream_a, stream_b, stream_c]\<rparr>\<rparr>, None,
      [HttpGet ''http://ice/status-json.xsl'', BodyClose]) \<and>
   pollCycle real_of_int ''http://ice/status-json.xsl'' ''Radio One'' 15 [] False
     world_three_streams empty_state =
   Inr (emit [Sleep (15 * time_Second)]
         (fold (update_stream real_of_int [] False) [stream_a, stream_c]
            (emit [HttpGet ''http://ice/status-json.xsl'', BodyClose] empty_state))) \<and>
   pollCycle real_of_int ''http://ice/status-json.xsl'' [] 15 [] False
     world_three_streams empty_state =
   Inr (emit [Sleep (15 * time_Second)]
         (fold (update_stream real_of_int [] False) [stream_a, stream_b, stream_c]
            (emit [HttpGet ''http://ice/status-json.xsl'', BodyClose] empty_state)))"
proof -
  have h: "LoadIcecastStatus world_three_streams ''http://ice/status-json.xsl'' =
     (Some \<lparr>Icestats = \<lparr>Source = [stream_a, stream_b, stream_c]\<rparr>\<rparr>, None,
      [HttpGet ''http://ice/status-json.xsl'', BodyClose])"
    by (simp add: LoadIcecastStatus_def http_Get_def no_Host_def world_three_streams_def)
  show ?thesis
    using filter_exact_server_name [OF h, of real_of_int "''Radio One''" 15 "[]" False empty_state]
      filter_exact_server_name [OF h, of real_of_int "[]" 15 "[]" False empty_state]
    by (simp add: h stream_a_def stream_b_def stream_c_def)
qed

lemma gauges_range_body:
  "gauges (range_body f64 serverName clock legacyLabel s st) k =
     (if (ServerName s = serverName \<or> serverName = []) \<and> labels legacyLabel s = k
      then Some (f64 (Listeners s)) else gauges st k)"
  by (simp add: range_body_def update_stream_def gauges_emit)

lemma gauges_range_loop:
  "gauges (fold (range_body f64 serverName clock legacyLabel) src st) k =
     (if writers serverName legacyLabel k src = [] then gauges st k
      else Some (f64 (Listeners (last (writers serverName legacyLabel k src)))))"
proof (induction src rule: rev_induct)
  case Nil
  show ?case by (simp add: writers_def)
next
  case (snoc s src)
  show ?case
    using snoc.IH by (simp add: gauges_range_body writers_def)
qed

text \<open>
  C8. For every snapshot processed in one cycle and every pair of label values: if one or
  more streams that pass the filter have these label values, then after the cycle the gauge
  with these label values holds the listener count of the last such stream in the order of
  the snapshot (the later write replaces the earlier one).
\<close>

theorem last_write_wins:
  assumes "LoadIcecastStatus w url = (Some r, None, es)"
    and "writers serverName legacyLabel k (Source (Icestats r)) \<noteq> []"
  shows "\<exists>st'. pollCycle f64 url serverName wait clock legacyLabel w st = Inr st' \<and>
           gauges st' k =
             Some (f64 (Listeners (last (writers serverName legacyLabel k (Source (Icestats r))))))"
  unfolding pollCycle_loaded [OF assms(1)]
  using assms(2) by (simp add: gauges_emit gauges_range_loop)

theorem last_write_wins_witness:
  "LoadIcecastStatus world_three_streams ''http://ice/status-json.xsl'' =
     (Some \<lparr>Icestats = \<lparr>Source = [stream_a, stream_b, stream_c]\<rparr>\<rparr>, None,
      [HttpGet ''http://ice/status-json.xsl'', BodyClose]) \<and>
   writers [] False (''Radio One'', ''one.mp3'') [stream_a, stream_b, stream_c] = [stream_a, stream_c] \<and>
   (\<exists>st'. pollCycle real_of_int ''http://ice/status-json.xsl'' [] 15 [] False
            world_three_streams empty_state = Inr st' \<and>
          gauges st' (''Radio One'', ''one.mp3'') = Some 12)"
proof -
  have h: "LoadIcecastStatus world_three_streams ''http://ice/status-json.xsl'' =
     (Some \<lparr>Icestats = \<lparr>Source = [stream_a, stream_b, stream_c]\<rparr>\<rparr>, None,
      [HttpGet ''http://ice/status-json.xsl'', BodyClose])"
    by (simp add: LoadIcecastStatus_def http_Get_def no_Host_def world_three_streams_def)
  have u: "urlToLabel ''http://host/one.mp3'' = ''one.mp3''"
          "urlToLabel ''http://host/two.ogg'' = ''two.ogg''"
          "urlToLabel ''http://other/one.mp3'' = ''one.mp3''"
    by code_simp+
  have ws: "writers [] False (''Radio One'', ''one.mp3'') [stream_a, stream_b, stream_c] = [stream_a, stream_c]"
    by (simp add: writers_def labels_def stream_a_def stream_b_def stream_c_def u)
  have ne: "writers [] False (''Radio One'', ''one.mp3'')
              (Source (Icestats \<lparr>Icestats = \<lparr>Source = [stream_a, stream_b, stream_c]\<rparr>\<rparr>)) \<noteq> []"
    by (simp add: ws)
  have "\<exists>st'. pollCycle real_of_int ''http://ice/status-json.xsl'' [] 15 [] False
            world_three_streams empty_state = Inr st' \<and>
          gauges st' (''Radio One'', ''one.mp3'') = Some (real_of_int (Listeners stream_c))"
    using last_write_wins [OF h ne, of real_of_int 15 "[]" empty_state]
    unfolding StatusRoot.simps IcecastStats.simps ws by simp
  then show ?thesis
    unfolding h ws by (simp add: stream_c_def)
qed

lemma snapshot_writers_keep:
  assumes "pollCycle f64 url serverName wait clock legacyLabel w st = Inr st'"
  shows "gauges st' k =
           (if writers serverName legacyLabel k (snapshot w url) = [] then gauges st k
            else Some (f64 (Listeners (last (writers serverName legacyLabel k (snapshot w url))))))"
proof -
  obtain resp err es where l: "LoadIcecastStatus w url = (resp, err, es)"
    by (cases "LoadIcecastStatus w url") auto
  show ?thesis
  proof (cases err)
    case (Some e)
    with l have "snapshot w url = []" by (simp add: snapshot_def split: option.splits)
    moreover from assms have "gauges st' = gauges st"
      using l Some by (auto simp: pollCycle_error gauges_emit)
    ultimately show ?thesis by (simp add: writers_def)
  next
    case None
    show ?thesis
    proof (cases resp)
      case none: None
      with l None assms show ?thesis by (simp add: pollCycle_nil)
    next
      case (Some r)
      with l None have sn: "snapshot w url = Source (Icestats r)" by (simp add: snapshot_def)
      from l None Some assms show ?thesis
        by (auto simp: pollCycle_loaded sn gauges_emit gauges_range_loop)
    qed
  qed
qed

lemma cycle_keeps_keys:
  assumes "pollCycle f64 url serverName wait clock legacyLabel w st = Inr st'"
    and "k \<in> dom (gauges st)"
  shows "k \<in> dom (gauges st')"
  using assms(2) unfolding snapshot_writers_keep [OF assms(1)] dom_def by simp

text \<open>
  C9. For every sequence of poll cycles that the process survives: a gauge that is present
  before the sequence is present after it, and it still holds its value when no cycle of
  the sequence wrote to it (no stream of any cycle's snapshot passed the filter with these
  label values). As the sequence is arbitrary, this holds in every later state.
\<close>

theorem gauge_never_removed:
  assumes "updateListeners f64 url serverName wait clock legacyLabel ws st = Inr st'"
    and "gauges st k = Some v"
  shows "k \<in> dom (gauges st') \<and>
         ((\<forall>w\<in>set ws. writers serverName legacyLabel k (snapshot w url) = []) \<longrightarrow>
            gauges st' k = Some v)"
  using assms
proof (induction ws arbitrary: st v)
  case Nil
  then show ?case by auto
next
  case (Cons w ws)
  from Cons.prems(1) obtain st1 where
    c: "pollCycle f64 url serverName wait clock legacyLabel w st = Inr st1"
    and r: "updateListeners f64 url serverName wait clock legacyLabel ws st1 = Inr st'"
    by (auto split: sum.splits)
  from Cons.prems(2) have "k \<in> dom (gauges st)" by blast
  then have "k \<in> dom (gauges st1)" by (rule cycle_keeps_keys [OF c])
  then obtain v1 where v1: "gauges st1 k = Some v1" by blast
  from Cons.IH [OF r v1] have "k \<in> dom (gauges st')" by simp
  moreover have "gauges st' k = Some v"
    if "\<forall>w\<in>set (w # ws). writers serverName legacyLabel k (snapshot w url) = []"
  proof -
    from that have "gauges st1 k = gauges st k"
      unfolding snapshot_writers_keep [OF c] by simp
    with v1 Cons.prems(2) have "v1 = v" by simp
    with Cons.IH [OF r v1] that show ?thesis by simp
  qed
  ultimately show ?case by blast
qed


lemma url_labels:
  "urlToLabel ''http://host/one.mp3'' = ''one.mp3''"
  "urlToLabel ''http://host/two.ogg'' = ''two.ogg''"
  "urlToLabel ''http://other/one.mp3'' = ''one.mp3''"
  by code_simp+

theorem gauge_never_removed_witness:
  "updateListeners real_of_int ''http://ice/status-json.xsl'' [] 15 [] False
     [world_unreachable, world_one_stream]
     (empty_state\<lparr>gauges := [(''Radio One'', ''one.mp3'') \<mapsto> 12]\<rparr>) =
   Inr \<lparr>gauges = [(''Radio One'', ''one.mp3'') \<mapsto> 12, (''Radio Two'', ''two.ogg'') \<mapsto> 7],
        trace = [HttpGet ''http://ice/status-json.xsl'',
                 LogPrintln ''Error polling Icecast endpoint, trying again in 15'',
                 Sleep (15 * time_Second),
                 HttpGet ''http://ice/status-json.xsl'', BodyClose,
                 Go_publishVClock [] 7,
                 Sleep (15 * time_Second)]\<rparr> \<and>
   gauges (empty_state\<lparr>gauges := [(''Radio One'', ''one.mp3'') \<mapsto> 12]\<rparr>)
     (''Radio One'', ''one.mp3'') = Some 12 \<and>
   writers [] False (''Radio One'', ''one.mp3'')
     (snapshot world_unreachable ''http://ice/status-json.xsl'') = [] \<and>
   writers [] False (''Radio One'', ''one.mp3'')
     (snapshot world_one_stream ''http://ice/status-json.xsl'') = [] \<and>
   gauges \<lparr>gauges = [(''Radio One'', ''one.mp3'') \<mapsto> 12, (''Radio Two'', ''two.ogg'') \<mapsto> (7::real)],
        trace = [HttpGet ''http://ice/status-json.xsl'',
                 LogPrintln ''Error polling Icecast endpoint, trying again in 15'',
                 Sleep (15 * time_Second),
                 HttpGet ''http://ice/status-json.xsl'', BodyClose,
                 Go_publishVClock [] 7,
                 Sleep (15 * time_Second)]\<rparr> (''Radio One'', ''one.mp3'') = Some 12"
proof -
  have d: "fmt_d 15 = ''15''" by code_simp
  have run: "updateListeners real_of_int ''http://ice/status-json.xsl'' [] 15 [] False
     [world_unreachable, world_one_stream]
     (empty_state\<lparr>gauges := [(''Radio One'', ''one.mp3'') \<mapsto> 12]\<rparr>) =
   Inr \<lparr>gauges = [(''Radio One'', ''one.mp3'') \<mapsto> 12, (''Radio Two'', ''two.ogg'') \<mapsto> 7],
        trace = [HttpGet ''http://ice/status-json.xsl'',
                 LogPrintln ''Error polling Icecast endpoint, trying again in 15'',
                 Sleep (15 * time_Second),
                 HttpGet ''http://ice/status-json.xsl'', BodyClose,
                 Go_publishVClock [] 7,
                 Sleep (15 * time_Second)]\<rparr>"
    by (simp add: pollCycle_def LoadIcecastStatus_def http_Get_def no_Host_def
        world_unreachable_def world_one_stream_def
        emit_def range_body_def update_stream_def labels_def stream_b_def url_labels d
        empty_state_def)
  have g: "gauges (empty_state\<lparr>gauges := [(''Radio One'', ''one.mp3'') \<mapsto> 12]\<rparr>)
     (''Radio One'', ''one.mp3'') = Some 12" by simp
  have q: "\<forall>w\<in>set [world_unreachable, world_one_stream].
      writers [] False (''Radio One'', ''one.mp3'') (snapshot w ''http://ice/status-json.xsl'') = []"
    by (simp add: writers_def snapshot_def LoadIcecastStatus_def http_Get_def no_Host_def
        world_unreachable_def
        world_one_stream_def labels_def stream_b_def)
  show ?thesis
    using gauge_never_removed [OF run g] q run g by simp
qed

section \<open>The decoder\<close>

lemma UnmarshalJSON_attempts:
  "UnmarshalJSON unmarshal_slice unmarshal_struct source data =
     (case unmarshal_slice data of
        Inr xs \<Rightarrow> (xs, None)
      | Inl e \<Rightarrow>
          (case unmarshal_struct data of
             Inr x \<Rightarrow> ([x], None)
           | Inl e' \<Rightarrow> (source, Some (Err ''error parsing icestats source''))))"
  by (simp add: UnmarshalJSON_def)

lemma json_Unmarshal_Stream_accepts:
  "(\<exists>s. json_Unmarshal_Stream object v = Inr s) \<longleftrightarrow> v = Null \<or> stream_object object v"
  by (cases v) (auto split: sum.splits)

lemma json_Unmarshal_Stream_element:
  assumes "v = Null \<or> stream_object object v"
  shows "json_Unmarshal_Stream object v = Inr (element_stream object v)"
  using assms by (cases v) (auto split: sum.splits)

lemma unmarshal_elements_accepts:
  "(\<exists>ss. unmarshal_elements object vs = Inr ss) \<longleftrightarrow>
     list_all (\<lambda>v. v = Null \<or> stream_object object v) vs"
proof (induction vs)
  case Nil
  show ?case by simp
next
  case (Cons v vs)
  show ?case
  proof (cases "json_Unmarshal_Stream object v")
    case (Inl e)
    with json_Unmarshal_Stream_accepts [of object v] show ?thesis by auto
  next
    case (Inr s)
    with json_Unmarshal_Stream_accepts [of object v] Cons.IH show ?thesis
      by (auto split: sum.splits)
  qed
qed

lemma unmarshal_elements_result:
  assumes "list_all (\<lambda>v. v = Null \<or> stream_object object v) vs"
  shows "unmarshal_elements object vs = Inr (map (element_stream object) vs)"
  using assms by (induction vs) (simp_all add: json_Unmarshal_Stream_element)

text \<open>
  The document \<open>null\<close> is neither an array of stream objects nor a single stream
  object, and the decoder accepts it: the source that held a stream is empty afterwards.
\<close>

theorem UnmarshalJSON_accepts_null:
  "Source_UnmarshalJSON example_object [stream_a] Null = ([], None) \<and>
   \<not> array_of_stream_objects example_object Null \<and>
   \<not> stream_object example_object Null"
  by (simp add: Source_UnmarshalJSON_def UnmarshalJSON_def)

text \<open>
  C1 (amended). For every raw status document, the decoder succeeds if and only if the
  document is \<open>null\<close>, an array whose elements are each \<open>null\<close> or a stream object,
  or a single stream object. For \<open>null\<close> the resulting snapshot is empty; for such an
  array it is the streams of the elements with order preserved (the zero stream for a
  \<open>null\<close> element); for a single stream object it is the one-element snapshot wrapping
  that stream; in every other case decoding fails with the error
  \<open>error parsing icestats source\<close> and the snapshot is left as it was.
\<close>

theorem UnmarshalJSON_accepted_documents:
  "(snd (Source_UnmarshalJSON object source data) = None \<longleftrightarrow>
      data = Null \<or>
      (\<exists>vs. data = Array vs \<and> list_all (\<lambda>v. v = Null \<or> stream_object object v) vs) \<or>
      stream_object object data) \<and>
   (data = Null \<longrightarrow> Source_UnmarshalJSON object source data = ([], None)) \<and>
   (\<forall>vs. data = Array vs \<and> list_all (\<lambda>v. v = Null \<or> stream_object object v) vs \<longrightarrow>
      Source_UnmarshalJSON object source data = (map (element_stream object) vs, None)) \<and>
   (stream_object object data \<longrightarrow>
      Source_UnmarshalJSON object source data = ([element_stream object data], None)) \<and>
   (data \<noteq> Null \<and>
    \<not> (\<exists>vs. data = Array vs \<and> list_all (\<lambda>v. v = Null \<or> stream_object object v) vs) \<and>
    \<not> stream_object object data \<longrightarrow>
      Source_UnmarshalJSON object source data =
        (source, Some (Err ''error parsing icestats source'')))"
proof (cases data)
  case Malformed
  then show ?thesis
    by (simp add: Source_UnmarshalJSON_def UnmarshalJSON_attempts)
next
  case Null
  then show ?thesis
    by (simp add: Source_UnmarshalJSON_def UnmarshalJSON_attempts)
next
  case Scalar
  then show ?thesis
    by (simp add: Source_UnmarshalJSON_def UnmarshalJSON_attempts)
next
  case (Array vs)
  show ?thesis
  proof (cases "list_all (\<lambda>v. v = Null \<or> stream_object object v) vs")
    case True
    from unmarshal_elements_result [OF True] True Array show ?thesis
      by (simp add: Source_UnmarshalJSON_def UnmarshalJSON_attempts)
  next
    case False
    with unmarshal_elements_accepts [of object vs]
    obtain e where "unmarshal_elements object vs = Inl e"
      by (cases "unmarshal_elements object vs") auto
    with False Array show ?thesis
      by (simp add: Source_UnmarshalJSON_def UnmarshalJSON_attempts)
  qed
next
  case (Object m)
  then show ?thesis
    by (cases "object m") (simp_all add: Source_UnmarshalJSON_def UnmarshalJSON_attempts)
qed

theorem UnmarshalJSON_accepted_documents_witness:
  "Source_UnmarshalJSON example_object [stream_a] Null = ([], None) \<and>
   list_all (\<lambda>v. v = Null \<or> stream_object example_object v)
     [Object ''{listeners: 3, server_name: Radio One, listenurl: http://host/one.mp3}'',
      Null,
      Object ''{listeners: 7, server_name: Radio Two, listenurl: http://host/two.ogg}''] \<and>
   Source_UnmarshalJSON example_object []
     (Array
       [Object ''{listeners: 3, server_name: Radio One, listenurl: http://host/one.mp3}'',
        Null,
        Object ''{listeners: 7, server_name: Radio Two, listenurl: http://host/two.ogg}'']) =
     ([stream_a, zero_Stream, stream_b], None) \<and>
   stream_object example_object
     (Object ''{listeners: 12, server_name: Radio One, listenurl: http://other/one.mp3}'') \<and>
   Source_UnmarshalJSON example_object []
     (Object ''{listeners: 12, server_name: Radio One, listenurl: http://other/one.mp3}'') =
     ([stream_c], None) \<and>
   \<not> stream_object example_object (Object ''{listeners: many}'') \<and>
   Source_UnmarshalJSON example_object [stream_a] (Object ''{listeners: many}'') =
     ([stream_a], Some (Err ''error parsing icestats source'')) \<and>
   Source_UnmarshalJSON example_object [stream_a] (Array [Scalar]) =
     ([stream_a], Some (Err ''error parsing icestats source''))"
  using UnmarshalJSON_accepted_documents [of example_object "[stream_a]" Null]
    UnmarshalJSON_accepted_documents [of example_object "[]"
      "Array
       [Object ''{listeners: 3, server_name: Radio One, listenurl: http://host/one.mp3}'',
        Null,
        Object ''{listeners: 7, server_name: Radio Two, listenurl: http://host/two.ogg}'']"]
    UnmarshalJSON_accepted_documents [of example_object "[]"
      "Object ''{listeners: 12, server_name: Radio One, listenurl: http://other/one.mp3}''"]
    UnmarshalJSON_accepted_documents [of example_object "[stream_a]"
      "Object ''{listeners: many}''"]
    UnmarshalJSON_accepted_documents [of example_object "[stream_a]" "Array [Scalar]"]
  by (simp add: example_object_def)

section \<open>Failed polls, the sleep and the legacy push\<close>

text \<open>
  A cycle whose response is a 404 page that does not decode: the error of \<open>Decode\<close> is
  dropped, so the cycle takes the branch of a successful fetch and logs nothing.
\<close>

theorem decode_failure_not_logged:
  "pollCycle real_of_int ''http://ice/status-json.xsl'' [] 15 [] False world_not_found empty_state =
   Inr (empty_state\<lparr>trace := [HttpGet ''http://ice/status-json.xsl'', BodyClose,
                               Sleep (15 * time_Second)]\<rparr>)"
  by (simp add: pollCycle_def LoadIcecastStatus_def http_Get_def no_Host_def
      world_not_found_def emit_def
      zero_StatusRoot_def empty_state_def)

text \<open>
  C2 (amended). For every poll cycle whose fetch fails with a transport error
  (\<open>http.Get\<close> returns an error), the loop logs the condition, leaves the gauges exactly
  as they were before the cycle, and goes on to its sleep: the cycle does not panic.
\<close>

theorem transport_failure_abandons_cycle:
  assumes "http_Get w url = Inl e"
  shows "\<exists>st'. pollCycle f64 url serverName wait clock legacyLabel w st = Inr st' \<and>
           gauges st' = gauges st \<and>
           trace st' = trace st @
             [HttpGet url,
              LogPrintln (''Error polling Icecast endpoint, trying again in '' @ fmt_d wait),
              Sleep (15 * time_Second)]"
  using assms by (simp add: pollCycle_def LoadIcecastStatus_def emit_def)

theorem transport_failure_abandons_cycle_witness:
  "http_Get world_unreachable ''http://ice/status-json.xsl'' = Inl (Err ''connection refused'') \<and>
   (\<exists>st'. pollCycle real_of_int ''http://ice/status-json.xsl'' [] 15 [] False
             world_unreachable empty_state = Inr st' \<and>
           gauges st' = gauges empty_state \<and>
           trace st' = trace empty_state @
             [HttpGet ''http://ice/status-json.xsl'',
              LogPrintln (''Error polling Icecast endpoint, trying again in '' @ fmt_d 15),
              Sleep (15 * time_Second)])"
proof -
  have h: "http_Get world_unreachable ''http://ice/status-json.xsl'' = Inl (Err ''connection refused'')"
    by (simp add: http_Get_def no_Host_def world_unreachable_def)
  show ?thesis
    using transport_failure_abandons_cycle [OF h, of real_of_int "[]" 15 "[]" False empty_state] h
    by blast
qed

text \<open>
  C3. With the interval set to 30, a cycle (failed or successful) sleeps
  \<open>15 * time.Second\<close>, which is not 30 seconds: the duration of the sleep is the
  constant 15, and the configured interval only appears in the log line.
\<close>

theorem sleep_ignores_interval:
  "pollCycle real_of_int ''http://ice/status-json.xsl'' [] 30 [] False world_unreachable empty_state =
   Inr (empty_state\<lparr>trace := [HttpGet ''http://ice/status-json.xsl'',
                               LogPrintln ''Error polling Icecast endpoint, trying again in 30'',
                               Sleep (15 * time_Second)]\<rparr>) \<and>
   pollCycle real_of_int ''http://ice/status-json.xsl'' [] 30 [] False world_one_stream empty_state =
   Inr \<lparr>gauges = [(''Radio Two'', ''two.ogg'') \<mapsto> 7],
        trace = [HttpGet ''http://ice/status-json.xsl'', BodyClose, Go_publishVClock [] 7,
                 Sleep (15 * time_Second)]\<rparr> \<and>
   15 * time_Second \<noteq> 30 * time_Second"
proof -
  have d: "fmt_d 30 = ''30''" by code_simp
  show ?thesis
    by (simp add: pollCycle_def LoadIcecastStatus_def http_Get_def no_Host_def
        world_unreachable_def world_one_stream_def
        emit_def range_body_def update_stream_def labels_def stream_b_def url_labels d
        empty_state_def time_Second_def)
qed







section \<open>The legacy label\<close>

lemma strings_Join_empty_sep: "strings_Join xs [] = concat xs"
  by (induction xs "[] :: string" rule: strings_Join.induct) simp_all

lemma strings_ReplaceAll_byte:
  "strings_ReplaceAll s [c] [d] = map (\<lambda>x. if x = c then d else x) s"
  by (induction s) auto

lemma in_class_first: "in_class re_first c = spec_initial c"
  by (simp add: in_class_def re_first_def spec_initial_def spec_letter_def)

lemma in_class_rest: "in_class re_rest c = spec_following c"
  by (simp add: in_class_def re_rest_def spec_following_def spec_letter_def spec_digit_def)

lemma first_is_rest: "in_class re_first c \<Longrightarrow> in_class re_rest c"
  by (auto simp: in_class_def re_first_def re_rest_def)

lemma makeLegacyLabel_scan:
  "makeLegacyLabel name = concat (FindAllString (map spec_substitute name))"
proof -
  have "strings_ReplaceAll (strings_ReplaceAll name ''.'' ''_'') '' '' ''_'' =
        map spec_substitute name"
    by (auto simp: strings_ReplaceAll_byte spec_substitute_def)
  then show ?thesis
    by (simp add: makeLegacyLabel_def strings_Join_empty_sep)
qed

lemma FindAllString_Nil: "FindAllString [] = []"
  by (subst FindAllString.simps) simp

lemma match_here_Some:
  assumes "match_here s = Some m"
  shows "m \<noteq> [] \<and> in_class re_first (hd m) \<and> list_all (in_class re_rest) (tl m) \<and>
         s = m @ drop (length m) s \<and>
         (drop (length m) s = [] \<or> \<not> in_class re_rest (hd (drop (length m) s)))"
proof (cases s)
  case Nil
  with assms show ?thesis by simp
next
  case (Cons c cs)
  with assms have c: "in_class re_first c" and m: "m = c # takeWhile (in_class re_rest) cs"
    by (auto split: if_splits)
  have "drop (length m) s = dropWhile (in_class re_rest) cs"
    unfolding m Cons by (simp add: dropWhile_eq_drop)
  moreover have "s = m @ dropWhile (in_class re_rest) cs" unfolding m Cons by simp
  moreover have "dropWhile (in_class re_rest) cs = [] \<or>
                 \<not> in_class re_rest (hd (dropWhile (in_class re_rest) cs))"
    using hd_dropWhile [of "in_class re_rest" cs] by blast
  moreover have "list_all (in_class re_rest) (tl m)"
    unfolding m by (simp add: list_all_iff) (meson set_takeWhileD)
  ultimately show ?thesis using c m by simp
qed

lemma match_here_None:
  assumes "match_here s = None" and "s \<noteq> []"
  shows "\<not> in_class re_first (hd s)"
  using assms by (cases s) (auto split: if_splits)

lemma FindAllString_None:
  assumes "s \<noteq> []" "match_here s = None"
  shows "FindAllString s = FindAllString (tl s)"
  by (subst FindAllString.simps) (simp add: assms)

lemma FindAllString_Some:
  assumes "s \<noteq> []" "match_here s = Some m"
  shows "FindAllString s = m # FindAllString (drop (length m) s)"
  by (subst FindAllString.simps) (simp add: assms)

lemma FindAllString_matches:
  "\<forall>m\<in>set (FindAllString s).
     m \<noteq> [] \<and> in_class re_first (hd m) \<and> list_all (in_class re_rest) (tl m)"
proof (induction s rule: FindAllString.induct)
  case (1 s)
  show ?case
  proof (cases "s = []")
    case True
    then show ?thesis by (simp add: FindAllString_Nil)
  next
    case False
    show ?thesis
    proof (cases "match_here s")
      case None
      from "1.IH"(1) [OF False None] show ?thesis
        unfolding FindAllString_None [OF False None] .
    next
      case (Some m)
      from match_here_Some [OF Some]
      have "m \<noteq> [] \<and> in_class re_first (hd m) \<and> list_all (in_class re_rest) (tl m)"
        by blast
      with "1.IH"(2) [OF False Some] show ?thesis
        unfolding FindAllString_Some [OF False Some] by simp
    qed
  qed
qed

lemma concat_matches:
  assumes "\<forall>m\<in>set ms. m \<noteq> [] \<and> in_class re_first (hd m) \<and> list_all (in_class re_rest) (tl m)"
  shows "list_all (in_class re_rest) (concat ms) \<and>
         (concat ms = [] \<or> in_class re_first (hd (concat ms)))"
  using assms
proof (induction ms)
  case Nil
  show ?case by simp
next
  case (Cons m ms)
  then have m: "m \<noteq> []" "in_class re_first (hd m)" "list_all (in_class re_rest) (tl m)"
    by simp_all
  then have "list_all (in_class re_rest) m"
    by (cases m) (simp_all add: first_is_rest)
  with Cons m show ?case by simp
qed

lemma substitute_fixes_rest:
  assumes "list_all (in_class re_rest) t"
  shows "map spec_substitute t = t"
proof -
  have "spec_substitute c = c" if "in_class re_rest c" for c
    using that by (auto simp: spec_substitute_def in_class_def re_rest_def)
  with assms show ?thesis by (simp add: list_all_iff map_idI)
qed

lemma FindAllString_whole:
  assumes "t \<noteq> []" "in_class re_first (hd t)" "list_all (in_class re_rest) (tl t)"
  shows "FindAllString t = [t]"
proof -
  from assms obtain c cs where t: "t = c # cs" by (cases t) auto
  with assms have "takeWhile (in_class re_rest) cs = cs"
    by (simp add: list_all_iff)
  with assms t have "match_here t = Some t" by simp
  from FindAllString_Some [OF assms(1) this] show ?thesis
    by (simp add: FindAllString_Nil)
qed

text \<open>
  C10. The legacy transform is idempotent: for every input string, applying
  \<open>makeLegacyLabel\<close> to its own output returns that output unchanged. The output
  holds only characters of the class \<open>[a-zA-Z0-9_:]\<close> and, when it is not empty, it
  starts with a character of the class \<open>[a-zA-Z_:]\<close>.
\<close>

theorem makeLegacyLabel_idempotent:
  "makeLegacyLabel (makeLegacyLabel name) = makeLegacyLabel name \<and>
   list_all (in_class re_rest) (makeLegacyLabel name) \<and>
   (makeLegacyLabel name = [] \<or> in_class re_first (hd (makeLegacyLabel name)))"
proof -
  let ?t = "makeLegacyLabel name"
  have t: "list_all (in_class re_rest) ?t \<and> (?t = [] \<or> in_class re_first (hd ?t))"
    unfolding makeLegacyLabel_scan by (rule concat_matches [OF FindAllString_matches])
  have "makeLegacyLabel ?t = ?t"
  proof (cases "?t = []")
    case True
    have "makeLegacyLabel [] = []"
      by (simp add: makeLegacyLabel_scan FindAllString_Nil)
    with True show ?thesis by simp
  next
    case False
    with t have "list_all (in_class re_rest) (tl ?t)" "in_class re_first (hd ?t)"
      by (cases ?t, simp_all)+
    from FindAllString_whole [OF False this(2) this(1)] t
    show ?thesis
      by (subst makeLegacyLabel_scan) (simp add: substitute_fixes_rest)
  qed
  with t show ?thesis by simp
qed

section \<open>The legacy label and its reference definition\<close>

lemma substring_shift:
  "substring (m @ r) (i + length m, j + length m) = substring r (i, j)"
  by (simp add: substring_def)

lemma safe_at_shift:
  "safe_at (m @ r) (i + length m, j + length m) = safe_at r (i, j)"
  by (simp add: safe_at_def substring_shift)

lemma safe_at_range: "safe_at s (i, j) \<Longrightarrow> i < j \<and> j \<le> length s"
  by (simp add: safe_at_def)

lemma substring_nth:
  assumes "j \<le> length s" "k < j - i"
  shows "substring s (i, j) ! k = s ! (i + k)"
  using assms by (simp add: substring_def)

lemma substring_length:
  assumes "j \<le> length s"
  shows "length (substring s (i, j)) = j - i"
  using assms by (simp add: substring_def)

lemma safe_at_initial:
  assumes "safe_at s (i, j)"
  shows "spec_initial (s ! i)"
proof -
  from assms have r: "i < j" "j \<le> length s" and w: "identifier_safe (substring s (i, j))"
    by (simp_all add: safe_at_def)
  from w have "substring s (i, j) \<noteq> []" "spec_initial (hd (substring s (i, j)))"
    by (simp_all add: identifier_safe_def)
  then have "spec_initial (substring s (i, j) ! 0)" by (simp add: hd_conv_nth)
  with substring_nth [OF r(2), of 0 i] r show ?thesis by simp
qed

lemma safe_at_following:
  assumes "safe_at s (i, j)" "i < k" "k < j"
  shows "spec_following (s ! k)"
proof -
  from assms have r: "i < j" "j \<le> length s" and w: "identifier_safe (substring s (i, j))"
    by (simp_all add: safe_at_def)
  let ?w = "substring s (i, j)"
  from w have a: "list_all spec_following (tl ?w)" by (simp add: identifier_safe_def)
  have l: "length ?w = j - i" by (rule substring_length [OF r(2)])
  from assms l have "k - i - 1 < length (tl ?w)" by simp
  with a have "spec_following (tl ?w ! (k - i - 1))" by (simp add: list_all_length)
  moreover have "Suc (k - i - 1) = k - i" using assms by simp
  then have "tl ?w ! (k - i - 1) = ?w ! (k - i)"
    using assms l by (simp add: nth_tl del: One_nat_def)
  moreover have "?w ! (k - i) = s ! (i + (k - i))"
    using assms by (intro substring_nth [OF r(2)]) simp
  ultimately show ?thesis using assms by simp
qed

lemma maximal_safe_iff:
  "maximal_safe s (i, j) \<longleftrightarrow>
     safe_at s (i, j) \<and>
     (\<forall>a b. a \<le> i \<and> j \<le> b \<and> b \<le> length s \<and> (a, b) \<noteq> (i, j) \<longrightarrow> \<not> safe_at s (a, b))"
  unfolding maximal_safe_def list_all_iff Ball_def set_upt atLeastLessThan_iff
    less_Suc_eq_le fst_conv snd_conv
  by blast

lemma maximal_safe_shift:
  assumes C: "\<And>i j. i < length m \<Longrightarrow> safe_at (m @ r) (i, j) \<Longrightarrow> j \<le> length m"
  shows "maximal_safe (m @ r) (i + length m, j + length m) = maximal_safe r (i, j)"
proof
  assume L: "maximal_safe (m @ r) (i + length m, j + length m)"
  then have s: "safe_at r (i, j)" by (simp add: maximal_safe_iff safe_at_shift)
  have "\<not> safe_at r (a, b)" if "a \<le> i" "j \<le> b" "b \<le> length r" "(a, b) \<noteq> (i, j)" for a b
  proof -
    from that have "a + length m \<le> i + length m \<and> j + length m \<le> b + length m \<and>
        b + length m \<le> length (m @ r) \<and> (a + length m, b + length m) \<noteq> (i + length m, j + length m)"
      by auto
    with L have "\<not> safe_at (m @ r) (a + length m, b + length m)"
      unfolding maximal_safe_iff by blast
    then show ?thesis by (simp add: safe_at_shift)
  qed
  with s show "maximal_safe r (i, j)" unfolding maximal_safe_iff by blast
next
  assume R: "maximal_safe r (i, j)"
  then have s: "safe_at (m @ r) (i + length m, j + length m)"
    by (simp add: maximal_safe_iff safe_at_shift)
  from R have ij: "i < j" using safe_at_range by (auto simp: maximal_safe_iff)
  have "\<not> safe_at (m @ r) (a, b)"
    if ab: "a \<le> i + length m" "j + length m \<le> b" "b \<le> length (m @ r)"
       "(a, b) \<noteq> (i + length m, j + length m)" for a b
  proof
    assume sa: "safe_at (m @ r) (a, b)"
    have "length m \<le> a"
    proof (rule ccontr)
      assume "\<not> length m \<le> a"
      then have "a < length m" by simp
      from C [OF this sa] ab(2) ij show False by simp
    qed
    then obtain a' where a': "a = a' + length m" by (metis le_add_diff_inverse2)
    from ab(2) obtain b' where b': "b = b' + length m"
      by (metis le_add_diff_inverse2 add_leE)
    from sa have "safe_at r (a', b')" unfolding a' b' by (simp add: safe_at_shift)
    moreover from ab have "a' \<le> i \<and> j \<le> b' \<and> b' \<le> length r \<and> (a', b') \<noteq> (i, j)"
      unfolding a' b' by auto
    ultimately show False using R unfolding maximal_safe_iff by blast
  qed
  with s show "maximal_safe (m @ r) (i + length m, j + length m)"
    unfolding maximal_safe_iff by blast
qed


lemma map_add_upt_general: "map (\<lambda>j. j + k) [a..<b] = [a + k..<b + k]"
  by (induction b) simp_all

lemma positions_append:
  "positions (n + k) =
     concat (map (\<lambda>i. map (Pair i) [Suc i..<Suc (n + k)]) [0..<k]) @
     map (\<lambda>(i, j). (i + k, j + k)) (positions n)"
proof -
  have "[0..<n + k] = [0..<k] @ map (\<lambda>i. i + k) [0..<n]"
    using upt_add_eq_append [of 0 k n] by (simp add: map_add_upt add.commute)
  moreover have "map (\<lambda>i. map (Pair i) [Suc i..<Suc (n + k)]) (map (\<lambda>i. i + k) [0..<n]) =
        map (map (\<lambda>(i, j). (i + k, j + k))) (map (\<lambda>i. map (Pair i) [Suc i..<Suc n]) [0..<n])"
  proof -
    have "map (Pair (i + k)) [Suc (i + k)..<Suc (n + k)] =
          map (\<lambda>(i, j). (i + k, j + k)) (map (Pair i) [Suc i..<Suc n])" for i
    proof -
      have "[Suc (i + k)..<Suc (n + k)] = map (\<lambda>j. j + k) [Suc i..<Suc n]"
        using map_add_upt_general [of k "Suc i" "Suc n"] by (simp del: upt_Suc)
      then show ?thesis by (simp add: comp_def del: upt_Suc)
    qed
    then show ?thesis by (simp add: comp_def del: upt_Suc)
  qed
  ultimately have "concat (map (\<lambda>i. map (Pair i) [Suc i..<Suc (n + k)]) [0..<n + k]) =
      concat (map (\<lambda>i. map (Pair i) [Suc i..<Suc (n + k)]) [0..<k]) @
      concat (map (map (\<lambda>(i, j). (i + k, j + k))) (map (\<lambda>i. map (Pair i) [Suc i..<Suc n]) [0..<n]))"
    by (simp only: map_append concat_append)
  then show ?thesis
    by (simp only: positions_def map_concat)
qed

lemma filter_eq_upt: "filter (\<lambda>j. j = k) [a..<b] = (if a \<le> k \<and> k < b then [k] else [])"
  by (induction b) auto

lemma filter_first_rows_single:
  assumes P: "\<And>i j. i < k \<Longrightarrow> P (i, j) \<longleftrightarrow> i = 0 \<and> j = k" and k: "0 < k"
  shows "filter P (concat (map (\<lambda>i. map (Pair i) [Suc i..<Suc (n + k)]) [0..<k])) = [(0, k)]"
proof -
  have rows: "[0..<k] = 0 # [Suc 0..<k]" using k by (simp add: upt_conv_Cons)
  have "filter P (map (Pair 0) [Suc 0..<Suc (n + k)]) =
        map (Pair 0) (filter (\<lambda>j. j = k) [Suc 0..<Suc (n + k)])"
    using P [OF k] by (simp add: filter_map comp_def del: upt_Suc)
  also have "\<dots> = [(0, k)]" using k unfolding filter_eq_upt by simp
  finally have first: "filter P (map (Pair 0) [Suc 0..<Suc (n + k)]) = [(0, k)]" .
  have "filter P (concat (map (\<lambda>i. map (Pair i) [Suc i..<Suc (n + k)]) [Suc 0..<k])) = []"
    unfolding filter_empty_conv using P by auto
  with first show ?thesis unfolding rows by (simp del: upt_Suc)
qed

lemma filter_first_rows_none:
  assumes P: "\<And>i j. i < k \<Longrightarrow> \<not> P (i, j)"
  shows "filter P (concat (map (\<lambda>i. map (Pair i) [Suc i..<Suc (n + k)]) [0..<k])) = []"
  unfolding filter_empty_conv using P by auto

lemma maximal_substrings_shift:
  assumes C: "\<And>i j. i < length m \<Longrightarrow> safe_at (m @ r) (i, j) \<Longrightarrow> j \<le> length m"
  shows "map (substring (m @ r))
           (filter (maximal_safe (m @ r))
              (map (\<lambda>(i, j). (i + length m, j + length m)) (positions (length r)))) =
         maximal_substrings r"
proof -
  have "(maximal_safe (m @ r) \<circ> (\<lambda>(i, j). (i + length m, j + length m))) = maximal_safe r"
    using maximal_safe_shift [OF C] by (auto simp: fun_eq_iff)
  moreover have "(substring (m @ r) \<circ> (\<lambda>(i, j). (i + length m, j + length m))) = substring r"
    using substring_shift by (auto simp: fun_eq_iff)
  ultimately show ?thesis
    by (simp add: maximal_substrings_def filter_map)
qed

lemma maximal_substrings_split:
  assumes C: "\<And>i j. i < length m \<Longrightarrow> safe_at (m @ r) (i, j) \<Longrightarrow> j \<le> length m"
  shows "maximal_substrings (m @ r) =
           map (substring (m @ r))
             (filter (maximal_safe (m @ r))
                (concat (map (\<lambda>i. map (Pair i) [Suc i..<Suc (length r + length m)])
                   [0..<length m]))) @
           maximal_substrings r"
proof -
  have len: "length (m @ r) = length r + length m" by simp
  have "maximal_substrings (m @ r) =
          map (substring (m @ r))
            (filter (maximal_safe (m @ r)) (positions (length r + length m)))"
    by (simp only: maximal_substrings_def len)
  also have "\<dots> =
          map (substring (m @ r))
             (filter (maximal_safe (m @ r))
                (concat (map (\<lambda>i. map (Pair i) [Suc i..<Suc (length r + length m)])
                   [0..<length m]))) @
          map (substring (m @ r))
             (filter (maximal_safe (m @ r))
                (map (\<lambda>(i, j). (i + length m, j + length m)) (positions (length r))))"
    by (simp only: positions_append filter_append map_append)
  finally show ?thesis
    by (simp only: maximal_substrings_shift [OF C])
qed

lemma maximal_substrings_skip:
  assumes "\<not> spec_initial c"
  shows "maximal_substrings (c # r) = maximal_substrings r"
proof -
  have no: "\<not> safe_at ([c] @ r) (i, j)" if "i < length [c]" for i j
    using that assms safe_at_initial [of "[c] @ r" i j] by auto
  then have C: "\<And>i j. i < length [c] \<Longrightarrow> safe_at ([c] @ r) (i, j) \<Longrightarrow> j \<le> length [c]"
    by blast
  have "\<not> maximal_safe ([c] @ r) (i, j)" if "i < length [c]" for i j
    using no [OF that] by (simp add: maximal_safe_iff)
  then have "filter (maximal_safe ([c] @ r))
          (concat (map (\<lambda>i. map (Pair i) [Suc i..<Suc (length r + length [c])]) [0..<length [c]])) = []"
    by (rule filter_first_rows_none)
  then have "maximal_substrings ([c] @ r) = maximal_substrings r"
    by (simp only: maximal_substrings_split [OF C] list.map append_Nil)
  then show ?thesis by simp
qed

lemma maximal_substrings_match:
  assumes m: "identifier_safe m" and r: "r = [] \<or> \<not> spec_following (hd r)"
  shows "maximal_substrings (m @ r) = m # maximal_substrings r"
proof -
  from m have ne: "m \<noteq> []" by (simp add: identifier_safe_def)
  have C: "j \<le> length m" if "i < length m" "safe_at (m @ r) (i, j)" for i j
  proof (rule ccontr)
    assume "\<not> j \<le> length m"
    then have j: "length m < j" by simp
    with that(2) safe_at_range have "length m < length (m @ r)" by fastforce
    then have "r \<noteq> []" by simp
    then have "(m @ r) ! length m = hd r" by (simp add: nth_append hd_conv_nth)
    moreover have "spec_following ((m @ r) ! length m)"
      by (rule safe_at_following [OF that(2) that(1) j])
    ultimately show False using r \<open>r \<noteq> []\<close> by simp
  qed
  have whole: "safe_at (m @ r) (0, length m)"
    using m ne by (simp add: safe_at_def substring_def)
  have D: "maximal_safe (m @ r) (i, j) \<longleftrightarrow> i = 0 \<and> j = length m" if i: "i < length m" for i j
  proof
    assume M: "maximal_safe (m @ r) (i, j)"
    then have s: "safe_at (m @ r) (i, j)" by (simp add: maximal_safe_iff)
    from C [OF i s] have "j \<le> length m" .
    with M whole show "i = 0 \<and> j = length m"
      unfolding maximal_safe_iff by (metis le0 length_append le_add1 prod.inject)
  next
    assume e: "i = 0 \<and> j = length m"
    have "\<not> safe_at (m @ r) (a, b)"
      if "a \<le> 0" "length m \<le> b" "b \<le> length (m @ r)" "(a, b) \<noteq> (0, length m)" for a b
    proof
      assume sa: "safe_at (m @ r) (a, b)"
      from that ne have "a < length m" by simp
      from C [OF this sa] that show False by simp
    qed
    with whole e show "maximal_safe (m @ r) (i, j)" unfolding maximal_safe_iff by blast
  qed
  have "filter (maximal_safe (m @ r))
          (concat (map (\<lambda>i. map (Pair i) [Suc i..<Suc (length r + length m)]) [0..<length m])) =
        [(0, length m)]"
    using D ne by (intro filter_first_rows_single) simp_all
  moreover have "substring (m @ r) (0, length m) = m" by (simp add: substring_def)
  ultimately show ?thesis
    by (simp only: maximal_substrings_split [OF C] list.map append_Cons append_Nil)
qed

lemma in_class_rest_fun: "in_class re_rest = spec_following"
  by (rule ext) (rule in_class_rest)

lemma FindAllString_maximal_substrings: "FindAllString s = maximal_substrings s"
proof (induction s rule: FindAllString.induct)
  case (1 s)
  show ?case
  proof (cases "s = []")
    case True
    then show ?thesis
      by (simp add: FindAllString_Nil maximal_substrings_def positions_def)
  next
    case False
    show ?thesis
    proof (cases "match_here s")
      case None
      from match_here_None [OF None False] have "\<not> spec_initial (hd s)"
        by (simp add: in_class_first)
      from maximal_substrings_skip [OF this, of "tl s"] False
      have "maximal_substrings s = maximal_substrings (tl s)" by simp
      with "1.IH"(1) [OF False None] show ?thesis
        unfolding FindAllString_None [OF False None] by simp
    next
      case (Some m)
      let ?r = "drop (length m) s"
      from match_here_Some [OF Some] have
        m: "identifier_safe m" and s: "s = m @ ?r" and
        r: "?r = [] \<or> \<not> spec_following (hd ?r)"
        unfolding in_class_first in_class_rest_fun identifier_safe_def by blast+
      from maximal_substrings_match [OF m r] s
      have "maximal_substrings s = m # maximal_substrings ?r" by simp
      with "1.IH"(2) [OF False Some] show ?thesis
        unfolding FindAllString_Some [OF False Some] by simp
    qed
  qed
qed

lemma no_safe_no_maximal:
  assumes "\<forall>i j. \<not> safe_at s (i, j)"
  shows "maximal_substrings s = []"
proof -
  have "\<not> maximal_safe s p" for p
    using assms by (cases p) (simp add: maximal_safe_iff)
  then show ?thesis by (simp add: maximal_substrings_def)
qed

text \<open>
  C5. For every input string, \<open>makeLegacyLabel\<close> equals the reference definition:
  replace every \<open>.\<close> and every space with \<open>_\<close>, then concatenate, in order and
  with no separator, all maximal substrings that match \<open>[a-zA-Z_:][a-zA-Z0-9_:]*\<close>.
  In particular \<open>Radio One.mp3\<close> yields \<open>Radio_One_mp3\<close>, and an input in which,
  after the replacement, no substring matches yields the empty string.
\<close>

theorem makeLegacyLabel_reference:
  "makeLegacyLabel name = legacy_reference name \<and>
   makeLegacyLabel ''Radio One.mp3'' = ''Radio_One_mp3'' \<and>
   ((\<forall>i j. \<not> safe_at (map spec_substitute name) (i, j)) \<longrightarrow> makeLegacyLabel name = [])"
proof (intro conjI impI)
  show e: "makeLegacyLabel name = legacy_reference name"
    by (simp add: makeLegacyLabel_scan legacy_reference_def FindAllString_maximal_substrings)
  show "makeLegacyLabel ''Radio One.mp3'' = ''Radio_One_mp3''" by code_simp
  assume "\<forall>i j. \<not> safe_at (map spec_substitute name) (i, j)"
  from no_safe_no_maximal [OF this] show "makeLegacyLabel name = []"
    by (simp add: e legacy_reference_def)
qed

theorem makeLegacyLabel_reference_witness:
  "(\<forall>i j. \<not> safe_at (map spec_substitute ''12-34'') (i, j)) \<and>
   makeLegacyLabel ''12-34'' = legacy_reference ''12-34'' \<and>
   makeLegacyLabel ''12-34'' = []"
proof -
  have sub: "map spec_substitute ''12-34'' = ''12-34''" by (simp add: spec_substitute_def)
  have no: "\<not> safe_at ''12-34'' (i, j)" for i j
  proof
    assume sa: "safe_at ''12-34'' (i, j)"
    from safe_at_range [OF sa] have "i < 5" by simp
    then consider "i = 0" | "i = 1" | "i = 2" | "i = 3" | "i = 4" by linarith
    then have "\<not> spec_initial (''12-34'' ! i)"
      by cases (simp_all add: spec_initial_def spec_letter_def)
    with safe_at_initial [OF sa] show False by simp
  qed
  then have "\<forall>i j. \<not> safe_at (map spec_substitute ''12-34'') (i, j)" unfolding sub by blast
  with makeLegacyLabel_reference [of "''12-34''"] show ?thesis by blast
qed

end
